theory Spec2Isabelle
  imports Main "HOL-Library.Word" "HOL-Library.Sublist"
begin

section \<open>JavaScript strings\<close>

text \<open>
  A JavaScript string is a sequence of UTF-16 code units; \<open>length\<close> counts code units and a
  regular expression without the \<open>u\<close> flag works on code units. \<open>js\<close> turns an ASCII
  literal into such a string.
\<close>

type_synonym code_unit = "16 word"
type_synonym jsstring = "code_unit list"

definition js :: "string \<Rightarrow> jsstring" where
  "js s = map of_char s"

text \<open>
  The class \<open>\s\<close> of a regular expression and the characters removed by \<open>trim\<close> are the
  same set: WhiteSpace and LineTerminator of ECMAScript.
\<close>

definition is_ws :: "code_unit \<Rightarrow> bool" where
  "is_ws c =
     (c \<in> set [0x9, 0xA, 0xB, 0xC, 0xD, 0x20, 0xA0, 0x1680, 0x2028, 0x2029, 0x202F,
               0x205F, 0x3000, 0xFEFF]
      \<or> (0x2000 \<le> c \<and> c \<le> 0x200A))"

definition trim :: "jsstring \<Rightarrow> jsstring" where
  "trim s = rev (dropWhile is_ws (rev (dropWhile is_ws s)))"

subsection \<open>String.prototype.split with a regular expression\<close>

text \<open>
  A matcher is a regular expression tried at one position only: it is given the code unit
  before the position (for a lookbehind) and the input from the position on, and returns the
  number of code units matched and the captured groups.

  \<open>split_loop\<close> is the loop of the ECMAScript split: \<open>piece\<close> is the input between the end
  \<open>p\<close> of the last separator and the position \<open>q\<close> under test, the last argument is the
  input from \<open>q\<close> on. Where the expression does not match at \<open>q\<close>, or matches the empty
  string right at \<open>p\<close>, \<open>q\<close> advances by one; otherwise the piece and the captures are
  pushed and both \<open>p\<close> and \<open>q\<close> move to the end of the match. After the loop the rest of
  the input is pushed.
\<close>

type_synonym matcher = "code_unit option \<Rightarrow> jsstring \<Rightarrow> (nat \<times> jsstring list) option"

function split_loop :: "matcher \<Rightarrow> code_unit option \<Rightarrow> jsstring \<Rightarrow> jsstring \<Rightarrow> jsstring list" where
  "split_loop m prev piece [] = [piece]"
| "split_loop m prev piece (c # cs) =
     (case m prev (c # cs) of
        None \<Rightarrow> split_loop m (Some c) (piece @ [c]) cs
      | Some (n, caps) \<Rightarrow>
          (let e = min n (length (c # cs)) in
           if e = 0 \<and> piece = [] then split_loop m (Some c) (piece @ [c]) cs
           else piece # caps @
                split_loop m (if e = 0 then prev else Some ((c # cs) ! (e - 1))) []
                  (drop e (c # cs))))"
  by pat_completeness auto
termination
  by (relation "measure (\<lambda>(m, prev, piece, rest). 2 * length rest + (if piece = [] then 0 else 1))")
     auto

definition js_split :: "matcher \<Rightarrow> jsstring \<Rightarrow> jsstring list" where
  "js_split m s =
     (if s = [] then (case m None [] of None \<Rightarrow> [[]] | Some r \<Rightarrow> [])
      else split_loop m None [] s)"

text \<open>The four regular expressions of the tokenizers.\<close>

definition re_ws :: matcher where
  \<comment> \<open>\<open>/\s+/\<close>\<close>
  "re_ws prev rest =
     (let run = takeWhile is_ws rest in if run = [] then None else Some (length run, []))"

definition re_ws_capture :: matcher where
  \<comment> \<open>\<open>/(\s+)/\<close>\<close>
  "re_ws_capture prev rest =
     (let run = takeWhile is_ws rest in if run = [] then None else Some (length run, [run]))"

definition re_sentence_end :: matcher where
  \<comment> \<open>\<open>/(?<=[.!?])\s+/\<close>\<close>
  "re_sentence_end prev rest =
     (case prev of
        None \<Rightarrow> None
      | Some d \<Rightarrow> if d \<in> set [0x2E, 0x21, 0x3F] then re_ws prev rest else None)"

definition re_blank_line :: matcher where
  \<comment> \<open>\<open>/\n\s*\n/\<close>: a line feed, then the longest run of white space that ends before a
      line feed (the greedy \<open>\s*\<close> backtracks to the last line feed of the run), then that
      line feed.\<close>
  "re_blank_line prev rest =
     (case rest of
        [] \<Rightarrow> None
      | c # cs \<Rightarrow>
          if c = 0xA then
            (let k = length (dropWhile (\<lambda>x. x \<noteq> 0xA) (rev (takeWhile is_ws cs)))
             in if k = 0 then None else Some (Suc k, []))
          else None)"

section \<open>Tokenizers (services/tokenizer.ts)\<close>

record WordTokenizer =
  tokenize :: "jsstring \<Rightarrow> jsstring list"
  formatWords :: "jsstring list \<Rightarrow> jsstring"

type_synonym SentenceTokenizer = "jsstring \<Rightarrow> jsstring list"

definition BasicWordTokenizer :: "bool \<Rightarrow> WordTokenizer" where
  "BasicWordTokenizer ignorePunctuation =
     \<lparr> tokenize = (\<lambda>text.
         if ignorePunctuation then filter (\<lambda>word. length word > 0) (js_split re_ws text)
         else filter (\<lambda>word. length word > 0) (js_split re_ws_capture text)),
       formatWords = concat \<rparr>"

definition BasicSentenceTokenizer :: SentenceTokenizer where
  "BasicSentenceTokenizer text =
     filter (\<lambda>s. length (trim s) > 0) (js_split re_sentence_end text)"

definition tokenizeParagraphs :: "jsstring \<Rightarrow> jsstring list" where
  "tokenizeParagraphs text =
     filter (\<lambda>p. length p > 0) (map trim (js_split re_blank_line text))"

section \<open>SentenceChunker\<close>

text \<open>
  \<open>maxChunkSize\<close> and \<open>chunkOverlap\<close> are only ever compared with string lengths
  (\<open>length > bound\<close>); a fractional bound behaves like its floor, so they are integers here
  (\<open>NaN\<close> and the infinities, with which no comparison ever holds or fails to hold, are left
  out).
\<close>

record SentenceChunker =
  maxChunkSize :: int
  chunkOverlap :: int
  paragraphTokenizer :: "jsstring \<Rightarrow> jsstring list"
  sentenceTokenizer :: SentenceTokenizer
  wordTokenizer :: WordTokenizer

record SentenceChunkerOptions =
  opt_maxChunkSize :: "int option"
  opt_chunkOverlap :: "int option"
  opt_paragraphTokenizer :: "(jsstring \<Rightarrow> jsstring list) option"
  opt_sentenceTokenizer :: "SentenceTokenizer option"
  opt_wordTokenizer :: "WordTokenizer option"

definition no_options :: SentenceChunkerOptions where
  "no_options =
     \<lparr> opt_maxChunkSize = None, opt_chunkOverlap = None, opt_paragraphTokenizer = None,
       opt_sentenceTokenizer = None, opt_wordTokenizer = None \<rparr>"

definition new_SentenceChunker :: "SentenceChunkerOptions \<Rightarrow> SentenceChunker" where
  "new_SentenceChunker options =
     \<lparr> maxChunkSize = (case opt_maxChunkSize options of Some v \<Rightarrow> v | None \<Rightarrow> 120),
       chunkOverlap = (case opt_chunkOverlap options of Some v \<Rightarrow> v | None \<Rightarrow> 30),
       paragraphTokenizer =
         (case opt_paragraphTokenizer options of Some f \<Rightarrow> f | None \<Rightarrow> tokenizeParagraphs),
       sentenceTokenizer =
         (case opt_sentenceTokenizer options of Some f \<Rightarrow> f | None \<Rightarrow> BasicSentenceTokenizer),
       wordTokenizer =
         (case opt_wordTokenizer options of Some t \<Rightarrow> t | None \<Rightarrow> BasicWordTokenizer False) \<rparr>"

text \<open>
  The loop \<open>while (formatWords(lastBufWords).length > chunkOverlap) lastBufWords =
  lastBufWords.slice(1)\<close>. It need not end (\<open>slice(1)\<close> of the empty array is the empty
  array), so it is a partial function: \<open>None\<close> is the loop that runs forever.
\<close>

partial_function (option) trim_overlap ::
  "WordTokenizer \<Rightarrow> int \<Rightarrow> jsstring list \<Rightarrow> jsstring list option" where
  "trim_overlap wt overlap lastBufWords =
     (if int (length (formatWords wt lastBufWords)) > overlap
      then trim_overlap wt overlap (drop 1 lastBufWords)
      else Some lastBufWords)"

declare trim_overlap.simps [code]

record chunk_state =
  chunks :: "jsstring list"
  bufWords :: "jsstring list"
  lastBufWords :: "jsstring list"

text \<open>A \<open>for ... of\<close> loop whose body may fail to return.\<close>

fun for_each :: "('a \<Rightarrow> 's \<Rightarrow> 's option) \<Rightarrow> 'a list \<Rightarrow> 's \<Rightarrow> 's option" where
  "for_each body [] s = Some s"
| "for_each body (x # xs) s =
     (case body x s of None \<Rightarrow> None | Some s' \<Rightarrow> for_each body xs s')"

definition word_step :: "SentenceChunker \<Rightarrow> jsstring \<Rightarrow> chunk_state \<Rightarrow> chunk_state option" where
  "word_step c word st =
     (let reconstructed = formatWords (wordTokenizer c) (bufWords st @ [word]) in
      if int (length reconstructed) > maxChunkSize c then
        (case trim_overlap (wordTokenizer c) (chunkOverlap c) (lastBufWords st) of
           None \<Rightarrow> None
         | Some trimmed \<Rightarrow>
             (let newChunk = formatWords (wordTokenizer c) (trimmed @ bufWords st) in
              Some \<lparr> chunks = chunks st @ [newChunk], bufWords = [word],
                     lastBufWords = bufWords st \<rparr>))
      else Some (st\<lparr> bufWords := bufWords st @ [word] \<rparr>))"

definition sentence_step :: "SentenceChunker \<Rightarrow> jsstring \<Rightarrow> chunk_state \<Rightarrow> chunk_state option" where
  "sentence_step c sentence st =
     for_each (word_step c) (tokenize (wordTokenizer c) sentence) st"

definition paragraph_step :: "SentenceChunker \<Rightarrow> jsstring \<Rightarrow> chunk_state \<Rightarrow> chunk_state option" where
  "paragraph_step c paragraph st0 =
     (case for_each (sentence_step c) (sentenceTokenizer c paragraph) (st0\<lparr> lastBufWords := [] \<rparr>) of
        None \<Rightarrow> None
      | Some st \<Rightarrow>
          if length (bufWords st) > 0 then
            (case trim_overlap (wordTokenizer c) (chunkOverlap c) (lastBufWords st) of
               None \<Rightarrow> None
             | Some trimmed \<Rightarrow>
                 (let newChunk = formatWords (wordTokenizer c) (trimmed @ bufWords st) in
                  Some \<lparr> chunks = chunks st @ [newChunk], bufWords = [],
                         lastBufWords = trimmed \<rparr>))
          else Some st)"

definition chunk :: "SentenceChunker \<Rightarrow> jsstring \<Rightarrow> jsstring list option" where
  "chunk c text =
     (case for_each (paragraph_step c) (paragraphTokenizer c text)
             \<lparr> chunks = [], bufWords = [], lastBufWords = [] \<rparr> of
        None \<Rightarrow> None
      | Some st \<Rightarrow> Some (chunks st))"

text \<open>
  The word tokens in the order in which the loops of \<open>chunk\<close> visit them: those of one
  paragraph, and those of the whole text.
\<close>

definition paragraph_words :: "SentenceChunker \<Rightarrow> jsstring \<Rightarrow> jsstring list" where
  "paragraph_words c paragraph =
     concat (map (tokenize (wordTokenizer c)) (sentenceTokenizer c paragraph))"

definition all_words :: "SentenceChunker \<Rightarrow> jsstring \<Rightarrow> jsstring list" where
  "all_words c text = concat (map (paragraph_words c) (paragraphTokenizer c text))"

text \<open>\<open>new SentenceChunker({ maxChunkSize: m, chunkOverlap: v })\<close>, every tokenizer the default one.\<close>

definition chunker_with :: "int \<Rightarrow> int \<Rightarrow> SentenceChunker" where
  "chunker_with m v =
     new_SentenceChunker (no_options\<lparr> opt_maxChunkSize := Some m, opt_chunkOverlap := Some v \<rparr>)"

text \<open>
  Two predicates for the proofs about chunk lengths: the bound on a chunk, with \<open>W\<close> the word
  tokens of the text, and the invariant of the loops (every chunk emitted so far obeys the bound,
  and the pending buffer is empty, or no longer than \<open>maxChunkSize\<close>, or a single token).
\<close>

definition chunk_bound :: "SentenceChunker \<Rightarrow> jsstring list \<Rightarrow> jsstring \<Rightarrow> bool" where
  "chunk_bound c W ch \<longleftrightarrow>
     int (length ch) \<le> chunkOverlap c + maxChunkSize c
     \<or> (\<exists>w\<in>set W. int (length ch) \<le> chunkOverlap c + int (length w))"

definition pending_ok :: "SentenceChunker \<Rightarrow> jsstring list \<Rightarrow> chunk_state \<Rightarrow> bool" where
  "pending_ok c W st \<longleftrightarrow>
     (\<forall>ch\<in>set (chunks st). chunk_bound c W ch)
     \<and> (bufWords st = [] \<or> int (length (concat (bufWords st))) \<le> maxChunkSize c
         \<or> (\<exists>w\<in>set W. bufWords st = [w]))"

section \<open>RAGBuilder (services/ragBuilder.ts)\<close>

datatype error = Error jsstring

record DocumentMetadata =
  index :: nat
  embedding_model :: jsstring
  embedding_dimension :: int

text \<open>
  The embedding is an array of floating point numbers that the builder only stores; its type
  is the parameter \<open>'v\<close>.
\<close>

record 'v RAGDocument =
  uuid :: jsstring
  uid :: "jsstring option"
  content :: jsstring
  embedding :: 'v
  created_at :: int
  metadata :: DocumentMetadata

record RAGBuilderOptions =
  opt_databaseName :: "jsstring option"
  opt_collectionName :: "jsstring option"
  opt_embeddingsDimension :: "int option"
  opt_embeddingsModel :: "jsstring option"
  opt_uid :: "jsstring option"

record RAGBuilder =
  databaseName :: jsstring
  collectionName :: jsstring
  embeddingsDimension :: int
  embeddingsModel :: jsstring
  builder_uid :: "jsstring option"

definition new_RAGBuilder :: "RAGBuilderOptions \<Rightarrow> RAGBuilder" where
  "new_RAGBuilder options =
     \<lparr> databaseName = (case opt_databaseName options of Some v \<Rightarrow> v | None \<Rightarrow> js ''nfa''),
       collectionName =
         (case opt_collectionName options of Some v \<Rightarrow> v | None \<Rightarrow> js ''knowledges''),
       embeddingsDimension =
         (case opt_embeddingsDimension options of Some v \<Rightarrow> v | None \<Rightarrow> 1536),
       embeddingsModel =
         (case opt_embeddingsModel options of Some v \<Rightarrow> v
          | None \<Rightarrow> js ''text-embedding-3-small''),
       builder_uid = opt_uid options \<rparr>"

subsection \<open>The collaborators\<close>

text \<open>
  What the world outside the builder answers. The outcome of a call to a service may change
  from call to call, so it is a function of the number of calls made before: of embedding
  requests, of UUIDs drawn, of clock reads, of bulk inserts.
  \<^item> \<open>client_connect\<close>: the error thrown by \<open>client.connect()\<close>, if any;
  \<^item> \<open>listIndexes\<close>, \<open>createIndex\<close> (by index name), \<open>deleteMany_error\<close>: likewise;
  \<^item> \<open>embeddings_create k input model dimensions\<close>: the outcome of the \<open>k\<close>-th embedding
    request, an error or the vector \<open>response.data[0].embedding\<close>;
  \<^item> \<open>write_error k d\<close>: the write error of record \<open>d\<close> in the \<open>k\<close>-th bulk insert, if the store
    rejects it;
  \<^item> \<open>fs_access\<close>, \<open>fs_readFile\<close>: the file system.
\<close>

record 'v env =
  client_connect :: "error option"
  listIndexes :: "error option"
  createIndex :: "jsstring \<Rightarrow> error option"
  embeddings_create :: "nat \<Rightarrow> jsstring \<Rightarrow> jsstring \<Rightarrow> int \<Rightarrow> error + 'v"
  randomUUID :: "nat \<Rightarrow> jsstring"
  new_Date :: "nat \<Rightarrow> int"
  write_error :: "nat \<Rightarrow> 'v RAGDocument \<Rightarrow> error option"
  deleteMany_error :: "error option"
  fs_access :: "jsstring \<Rightarrow> bool"
  fs_readFile :: "jsstring \<Rightarrow> error + jsstring"

datatype log_entry =
  ConnectionError error
  | CouldNotCreateIndexes error
  | ErrorProcessingDocument nat error

text \<open>
  The state: the shared connection of config/database.ts, the collection the builder is
  configured for (its records and the names of its indexes), the batches passed to
  \<open>insertMany\<close> so far, oldest first, the counters of the services, and the logger's output.
\<close>

record 'v world =
  connected :: bool
  docs :: "'v RAGDocument list"
  indexes :: "jsstring list"
  insertMany_calls :: "'v RAGDocument list list"
  embedding_requests :: nat
  uuids_drawn :: nat
  clock_reads :: nat
  logged :: "log_entry list"

definition connectToDatabase :: "'v env \<Rightarrow> 'v world \<Rightarrow> error option \<times> 'v world" where
  "connectToDatabase env w =
     (if connected w then (None, w)
      else (case client_connect env of
              Some e \<Rightarrow> (Some e, w\<lparr> logged := logged w @ [ConnectionError e] \<rparr>)
            | None \<Rightarrow> (None, w\<lparr> connected := True \<rparr>)))"

text \<open>
  The bulk insert with \<open>ordered: false\<close>: every record the store does not reject is stored, and
  the call throws when a record was rejected.
\<close>

definition insertMany ::
  "'v env \<Rightarrow> 'v RAGDocument list \<Rightarrow> 'v world \<Rightarrow> error option \<times> 'v world" where
  "insertMany env documents w =
     (let k = length (insertMany_calls w);
          w' = w\<lparr> docs := docs w @ filter (\<lambda>d. write_error env k d = None) documents,
                  insertMany_calls := insertMany_calls w @ [documents] \<rparr>
      in (case List.map_filter (write_error env k) documents of
            [] \<Rightarrow> (None, w')
          | e # es \<Rightarrow> (Some e, w')))"

text \<open>\<open>deleteMany({ uid })\<close>: the records whose \<open>uid\<close> field is the given string go.\<close>

definition deleteMany ::
  "'v env \<Rightarrow> jsstring \<Rightarrow> 'v world \<Rightarrow> (error + nat) \<times> 'v world" where
  "deleteMany env u w =
     (case deleteMany_error env of
        Some e \<Rightarrow> (Inl e, w)
      | None \<Rightarrow>
          (Inr (length (filter (\<lambda>d. uid d = Some u) (docs w))),
           w\<lparr> docs := filter (\<lambda>d. uid d \<noteq> Some u) (docs w) \<rparr>))"

subsection \<open>getCollection\<close>

definition index_names :: "jsstring list" where
  "index_names = [js ''uuid_1'', js ''uid_1'', js ''created_at_-1'', js ''uid_1_created_at_-1'']"

text \<open>
  The four \<open>if (!indexNames.includes(name)) await collection.createIndex(...)\<close> in a row,
  inside one \<open>try\<close>: the first error ends them with a warning. \<open>indexNames\<close> is read once,
  before the first of them.
\<close>

fun create_missing :: "'v env \<Rightarrow> jsstring list \<Rightarrow> jsstring list \<Rightarrow> 'v world \<Rightarrow> 'v world" where
  "create_missing env [] indexNames w = w"
| "create_missing env (name # names) indexNames w =
     (if name \<in> set indexNames then create_missing env names indexNames w
      else (case createIndex env name of
              Some e \<Rightarrow> w\<lparr> logged := logged w @ [CouldNotCreateIndexes e] \<rparr>
            | None \<Rightarrow> create_missing env names indexNames (w\<lparr> indexes := indexes w @ [name] \<rparr>)))"

definition getCollection :: "'v env \<Rightarrow> RAGBuilder \<Rightarrow> 'v world \<Rightarrow> error option \<times> 'v world" where
  "getCollection env b w =
     (case connectToDatabase env w of
        (Some e, w1) \<Rightarrow> (Some e, w1)
      | (None, w1) \<Rightarrow>
          (None,
           (case listIndexes env of
              Some e \<Rightarrow> w1\<lparr> logged := logged w1 @ [CouldNotCreateIndexes e] \<rparr>
            | None \<Rightarrow> create_missing env index_names (indexes w1) w1)))"

subsection \<open>buildFromTexts, buildFromFile, cleanupByUid\<close>

definition createEmbeddings ::
  "'v env \<Rightarrow> RAGBuilder \<Rightarrow> jsstring \<Rightarrow> 'v world \<Rightarrow> (error + 'v) \<times> 'v world" where
  "createEmbeddings env b text w =
     (embeddings_create env (embedding_requests w) text (embeddingsModel b) (embeddingsDimension b),
      w\<lparr> embedding_requests := Suc (embedding_requests w) \<rparr>)"

text \<open>
  The record literal. \<open>...(this.uid && { uid: this.uid })\<close> adds the \<open>uid\<close> field when
  \<open>this.uid\<close> is neither undefined nor the empty string.
\<close>

definition new_document ::
  "'v env \<Rightarrow> RAGBuilder \<Rightarrow> nat \<Rightarrow> jsstring \<Rightarrow> 'v \<Rightarrow> 'v world \<Rightarrow> 'v RAGDocument \<times> 'v world" where
  "new_document env b idx text v w =
     (\<lparr> uuid = randomUUID env (uuids_drawn w),
        uid = (case builder_uid b of None \<Rightarrow> None | Some u \<Rightarrow> if u = [] then None else Some u),
        content = text,
        embedding = v,
        created_at = new_Date env (clock_reads w),
        metadata = \<lparr> index = idx, embedding_model = embeddingsModel b,
                     embedding_dimension = embeddingsDimension b \<rparr> \<rparr>,
      w\<lparr> uuids_drawn := Suc (uuids_drawn w), clock_reads := Suc (clock_reads w) \<rparr>)"

text \<open>
  The body of the loop over \<open>validTexts\<close>, on the buffer \<open>documents\<close> and the world. Whatever
  is thrown inside the \<open>try\<close>, by the embedding request or by the bulk insert, is caught and
  logged; after an insert that threw, \<open>documents.length = 0\<close> has not run. (The counter
  \<open>processed\<close> and the flag \<open>showProgress\<close> have no effect.)
\<close>

definition process_text ::
  "'v env \<Rightarrow> RAGBuilder \<Rightarrow> nat \<times> jsstring \<Rightarrow> 'v RAGDocument list \<times> 'v world
     \<Rightarrow> 'v RAGDocument list \<times> 'v world" where
  "process_text env b item state =
     (case item of (idx, text) \<Rightarrow>
      case state of (documents, w) \<Rightarrow>
      (case createEmbeddings env b text w of
         (Inl e, w1) \<Rightarrow> (documents, w1\<lparr> logged := logged w1 @ [ErrorProcessingDocument idx e] \<rparr>)
       | (Inr v, w1) \<Rightarrow>
           (case new_document env b idx text v w1 of (document, w2) \<Rightarrow>
            if length (documents @ [document]) \<ge> 100 then
              (case insertMany env (documents @ [document]) w2 of
                 (None, w3) \<Rightarrow> ([], w3)
               | (Some e, w3) \<Rightarrow>
                   (documents @ [document],
                    w3\<lparr> logged := logged w3 @ [ErrorProcessingDocument idx e] \<rparr>))
            else (documents @ [document], w2))))"

definition buildFromTexts ::
  "'v env \<Rightarrow> RAGBuilder \<Rightarrow> jsstring list \<Rightarrow> 'v world \<Rightarrow> error option \<times> 'v world" where
  "buildFromTexts env b texts w =
     (case getCollection env b w of
        (Some e, w1) \<Rightarrow> (Some e, w1)
      | (None, w1) \<Rightarrow>
          (let validTexts = filter (\<lambda>text. length (trim text) > 0) texts in
           case fold (process_text env b) (enumerate 0 validTexts) ([], w1) of
             (documents, w2) \<Rightarrow>
               if length documents > 0 then insertMany env documents w2 else (None, w2)))"

definition buildFromFile ::
  "'v env \<Rightarrow> RAGBuilder \<Rightarrow> jsstring \<Rightarrow> 'v world \<Rightarrow> error option \<times> 'v world" where
  "buildFromFile env b filePath w =
     (if \<not> fs_access env filePath
      then (Some (Error (js ''Input file not found: '' @ filePath)), w)
      else (case fs_readFile env filePath of
              Inl e \<Rightarrow> (Some e, w)
            | Inr rawData \<Rightarrow> buildFromTexts env b (tokenizeParagraphs rawData) w))"

definition cleanupByUid ::
  "'v env \<Rightarrow> RAGBuilder \<Rightarrow> jsstring \<Rightarrow> 'v world \<Rightarrow> (error + nat) \<times> 'v world" where
  "cleanupByUid env b u w =
     (case getCollection env b w of
        (Some e, w1) \<Rightarrow> (Inl e, w1)
      | (None, w1) \<Rightarrow> deleteMany env u w1)"

subsection \<open>A scripted environment\<close>

text \<open>
  Concrete collaborators for the examples: the \<open>k\<close>-th embedding request fails where
  \<open>fails k\<close> holds and otherwise returns the length of its input (standing for a vector),
  the store accepts every record, the file system holds the listed files.
\<close>

definition scripted_env :: "(nat \<Rightarrow> bool) \<Rightarrow> (jsstring \<times> jsstring) list \<Rightarrow> nat env" where
  "scripted_env fails files =
     \<lparr> client_connect = None, listIndexes = None, createIndex = (\<lambda>name. None),
       embeddings_create = (\<lambda>k input model dimensions.
          if fails k then Inl (Error (js ''service unavailable'')) else Inr (length input)),
       randomUUID = (\<lambda>k. replicate (Suc k) 0x75),
       new_Date = (\<lambda>k. int k),
       write_error = (\<lambda>k d. None),
       deleteMany_error = None,
       fs_access = (\<lambda>path. map_of files path \<noteq> None),
       fs_readFile = (\<lambda>path. case map_of files path of
                                 None \<Rightarrow> Inl (Error (js ''ENOENT''))
                               | Some rawData \<Rightarrow> Inr rawData) \<rparr>"

definition world_with :: "nat RAGDocument list \<Rightarrow> nat world" where
  "world_with ds =
     \<lparr> connected = False, docs = ds, indexes = [], insertMany_calls = [],
       embedding_requests = 0, uuids_drawn = 0, clock_reads = 0, logged = [] \<rparr>"

text \<open>A record already in the collection, with the given content and owner.\<close>

definition stored :: "jsstring \<Rightarrow> jsstring option \<Rightarrow> nat RAGDocument" where
  "stored text owner =
     \<lparr> uuid = text, uid = owner, content = text, embedding = length text, created_at = 0,
       metadata = \<lparr> index = 0, embedding_model = js ''text-embedding-3-small'',
                    embedding_dimension = 1536 \<rparr> \<rparr>"

text \<open>\<open>new RAGBuilder({ uid: 'owner-1' })\<close>: every other option at its default.\<close>

definition default_builder :: RAGBuilder where
  "default_builder = new_RAGBuilder \<lparr> opt_databaseName = None,
        opt_collectionName = None, opt_embeddingsDimension = None, opt_embeddingsModel = None,
        opt_uid = Some (js ''owner-1'') \<rparr>"

section \<open>The tokenizers\<close>

subsection \<open>The split loop loses nothing\<close>

lemma concat_split_loop:
  assumes "\<And>prev rest n caps. m prev rest = Some (n, caps) \<Longrightarrow> concat caps = take n rest"
  shows "concat (split_loop m prev piece rest) = piece @ rest"
  using assms
proof (induction m prev piece rest rule: split_loop.induct)
  case (1 m prev piece)
  then show ?case by simp
next
  case (2 m prev piece c cs)
  note caps_take = "2.prems"
  show ?case
  proof (cases "m prev (c # cs)")
    case None
    with 2 show ?thesis by simp
  next
    case (Some r)
    obtain n caps where r: "r = (n, caps)" by (cases r)
    have caps: "concat caps = take n (c # cs)" using caps_take Some r by simp
    define e where "e = min n (length (c # cs))"
    show ?thesis
    proof (cases "e = 0 \<and> piece = []")
      case True
      with 2 Some r show ?thesis by (simp add: e_def)
    next
      case False
      have IH: "concat (split_loop m (if e = 0 then prev else Some ((c # cs) ! (e - 1))) [] (drop e (c # cs)))
          = drop e (c # cs)"
        using "2.IH"(3)[OF Some r[symmetric] e_def False] caps_take by simp
      have "concat (split_loop m prev piece (c # cs)) =
         piece @ concat caps @ concat (split_loop m (if e = 0 then prev else Some ((c # cs) ! (e - 1))) [] (drop e (c # cs)))"
        by (simp only: split_loop.simps Some r option.case prod.case Let_def e_def[symmetric] False
              if_False concat.simps concat_append append_assoc)
      also have "\<dots> = piece @ take n (c # cs) @ drop e (c # cs)"
        using IH caps by simp
      also have "take n (c # cs) @ drop e (c # cs) = c # cs"
      proof (cases "n \<le> length (c # cs)")
        case True
        then have "e = n" by (simp add: e_def)
        then show ?thesis by simp
      next
        case False
        then have "e = length (c # cs)" by (simp add: e_def)
        with False show ?thesis by simp
      qed
      finally show ?thesis .
    qed
  qed
qed

lemma concat_filter_nonempty: "concat (filter (\<lambda>w. w \<noteq> []) xs) = concat xs"
  by (induction xs) auto

lemma re_ws_capture_caps:
  assumes "re_ws_capture prev rest = Some (n, caps)"
  shows "concat caps = take n rest"
proof -
  from assms have "n = length (takeWhile is_ws rest)" and "caps = [takeWhile is_ws rest]"
    by (auto simp: re_ws_capture_def Let_def split: if_splits)
  then show ?thesis
    using takeWhile_eq_take[of is_ws rest] by simp
qed

text \<open>
  C3: for the whitespace-preserving word tokenizer (\<open>BasicWordTokenizer\<close> with
  \<open>ignorePunctuation = false\<close>), formatting the tokens of a string gives the string back,
  for every string.
\<close>

theorem C3_format_tokenize: "formatWords (BasicWordTokenizer False) (tokenize (BasicWordTokenizer False) s) = s"
proof -
  have "concat (js_split re_ws_capture s) = s"
    using concat_split_loop[of re_ws_capture None "[]" s, OF re_ws_capture_caps]
    by (simp add: js_split_def re_ws_capture_def)
  then show ?thesis
    by (simp add: BasicWordTokenizer_def concat_filter_nonempty)
qed

section \<open>The chunker\<close>

subsection \<open>Loops and the trimming of the overlap\<close>

lemma for_each_append:
  "for_each f (xs @ ys) s = (case for_each f xs s of None \<Rightarrow> None | Some s' \<Rightarrow> for_each f ys s')"
  by (induction xs arbitrary: s) (auto split: option.splits)

lemma for_each_concat:
  "for_each (\<lambda>x. for_each f (g x)) xs s = for_each f (concat (map g xs)) s"
  by (induction xs arbitrary: s) (auto simp: for_each_append split: option.splits)

lemma for_each_total:
  assumes "\<And>x s. \<exists>s'. f x s = Some s'"
  shows "\<exists>s'. for_each f xs s = Some s'"
proof (induction xs arbitrary: s)
  case Nil
  show ?case by simp
next
  case (Cons x xs)
  obtain s1 where "f x s = Some s1" using assms by blast
  with Cons show ?case by simp
qed

lemma for_each_invariant:
  assumes "for_each f xs s = Some s'" and "I s"
    and "\<And>x a b. x \<in> set xs \<Longrightarrow> I a \<Longrightarrow> f x a = Some b \<Longrightarrow> I b"
  shows "I s'"
  using assms
proof (induction xs arbitrary: s)
  case Nil
  then show ?case by simp
next
  case (Cons x xs)
  from Cons.prems(1) obtain s1 where s1: "f x s = Some s1" and rest: "for_each f xs s1 = Some s'"
    by (auto split: option.splits)
  have "I s1" using Cons.prems(3)[of x s s1] Cons.prems(2) s1 by simp
  show ?case
  proof (rule Cons.IH[OF rest \<open>I s1\<close>])
    fix y a b
    assume "y \<in> set xs" "I a" "f y a = Some b"
    then show "I b" using Cons.prems(3)[of y a b] by simp
  qed
qed

lemma trim_overlap_neg:
  assumes "overlap < 0"
  shows "trim_overlap wt overlap ws = None"
proof (rule ccontr)
  assume "trim_overlap wt overlap ws \<noteq> None"
  then obtain r where r: "trim_overlap wt overlap ws = Some r" by auto
  have "\<not> overlap < 0"
  proof (rule trim_overlap.raw_induct[where P = "\<lambda>wt ov ws r. \<not> ov < 0", OF _ r])
    fix f :: "WordTokenizer \<Rightarrow> int \<Rightarrow> jsstring list \<Rightarrow> jsstring list option"
    fix wt ov ws r
    assume IH: "\<And>wt ov ws y. f wt ov ws = Some y \<Longrightarrow> \<not> ov < 0"
      and step: "(if ov < int (length (formatWords wt ws)) then f wt ov (drop 1 ws) else Some ws) = Some r"
    show "\<not> ov < 0"
    proof
      assume neg: "ov < 0"
      then have "ov < int (length (formatWords wt ws))" by simp
      with step have "f wt ov (drop 1 ws) = Some r" by simp
      from IH[OF this] neg show False by simp
    qed
  qed
  with assms show False by simp
qed

lemma trim_overlap_Some:
  assumes "trim_overlap wt overlap ws = Some r"
  shows "int (length (formatWords wt r)) \<le> overlap \<and> suffix r ws"
proof (rule trim_overlap.raw_induct[where
      P = "\<lambda>wt ov ws r. int (length (formatWords wt r)) \<le> ov \<and> suffix r ws", OF _ assms])
  fix f :: "WordTokenizer \<Rightarrow> int \<Rightarrow> jsstring list \<Rightarrow> jsstring list option"
  fix wt ov ws r
  assume IH: "\<And>wt ov ws y. f wt ov ws = Some y \<Longrightarrow>
                int (length (formatWords wt y)) \<le> ov \<and> suffix y ws"
    and step: "(if ov < int (length (formatWords wt ws)) then f wt ov (drop 1 ws) else Some ws) = Some r"
  show "int (length (formatWords wt r)) \<le> ov \<and> suffix r ws"
  proof (cases "ov < int (length (formatWords wt ws))")
    case True
    with step have "f wt ov (drop 1 ws) = Some r" by simp
    from IH[OF this] have "int (length (formatWords wt r)) \<le> ov" and "suffix r (drop 1 ws)"
      by simp_all
    moreover have "suffix (drop 1 ws) ws" by (rule suffix_drop)
    ultimately show ?thesis using suffix_order.trans by blast
  next
    case False
    with step show ?thesis by auto
  qed
qed

lemma trim_overlap_total:
  assumes "int (length (formatWords wt [])) \<le> overlap"
  shows "\<exists>r. trim_overlap wt overlap ws = Some r"
proof (induction ws)
  case Nil
  show ?case using assms by (subst trim_overlap.simps) simp
next
  case (Cons w ws)
  then show ?case by (subst trim_overlap.simps) simp
qed


subsection \<open>Steps of the chunker\<close>

lemma word_step_Some:
  assumes "word_step c w st = Some st'"
  shows "(\<not> maxChunkSize c < int (length (formatWords (wordTokenizer c) (bufWords st @ [w])))
            \<and> st' = st\<lparr> bufWords := bufWords st @ [w] \<rparr>)
       \<or> (maxChunkSize c < int (length (formatWords (wordTokenizer c) (bufWords st @ [w])))
            \<and> (\<exists>tr. trim_overlap (wordTokenizer c) (chunkOverlap c) (lastBufWords st) = Some tr
                 \<and> st' = \<lparr> chunks = chunks st @ [formatWords (wordTokenizer c) (tr @ bufWords st)],
                           bufWords = [w], lastBufWords = bufWords st \<rparr>))"
  using assms by (auto simp: word_step_def Let_def split: if_splits option.splits)

lemma word_step_total:
  assumes "int (length (formatWords (wordTokenizer c) [])) \<le> chunkOverlap c"
  shows "\<exists>st'. word_step c w st = Some st'"
proof -
  obtain tr where "trim_overlap (wordTokenizer c) (chunkOverlap c) (lastBufWords st) = Some tr"
    using trim_overlap_total[OF assms] by blast
  then show ?thesis by (simp add: word_step_def Let_def)
qed

lemma sentences_as_words:
  "for_each (sentence_step c) sentences st =
   for_each (word_step c) (concat (map (tokenize (wordTokenizer c)) sentences)) st"
proof -
  have "sentence_step c = (\<lambda>x. for_each (word_step c) (tokenize (wordTokenizer c) x))"
    by (rule ext)+ (simp add: sentence_step_def)
  then show ?thesis by (simp add: for_each_concat)
qed

lemma paragraph_step_Some:
  assumes "paragraph_step c p st0 = Some st'"
  shows "\<exists>st. for_each (word_step c) (paragraph_words c p) (st0\<lparr> lastBufWords := [] \<rparr>) = Some st
           \<and> ((bufWords st = [] \<and> st' = st)
              \<or> (bufWords st \<noteq> []
                  \<and> (\<exists>tr. trim_overlap (wordTokenizer c) (chunkOverlap c) (lastBufWords st) = Some tr
                       \<and> st' = \<lparr> chunks = chunks st @ [formatWords (wordTokenizer c) (tr @ bufWords st)],
                                 bufWords = [], lastBufWords = tr \<rparr>)))"
  using assms
  by (auto simp: paragraph_step_def paragraph_words_def sentences_as_words Let_def
           split: option.splits if_splits)

lemma paragraph_step_total:
  assumes "int (length (formatWords (wordTokenizer c) [])) \<le> chunkOverlap c"
  shows "\<exists>st'. paragraph_step c p st = Some st'"
proof -
  obtain st1 where st1: "for_each (sentence_step c) (sentenceTokenizer c p) (st\<lparr> lastBufWords := [] \<rparr>) = Some st1"
    unfolding sentences_as_words
    using for_each_total[of "word_step c", OF word_step_total[OF assms]] by blast
  obtain tr where "trim_overlap (wordTokenizer c) (chunkOverlap c) (lastBufWords st1) = Some tr"
    using trim_overlap_total[OF assms] by blast
  with st1 show ?thesis by (simp add: paragraph_step_def Let_def)
qed

lemma chunk_total:
  assumes "int (length (formatWords (wordTokenizer c) [])) \<le> chunkOverlap c"
  shows "\<exists>cs. chunk c text = Some cs"
proof -
  obtain st where "for_each (paragraph_step c) (paragraphTokenizer c text)
                     \<lparr> chunks = [], bufWords = [], lastBufWords = [] \<rparr> = Some st"
    using for_each_total[of "paragraph_step c", OF paragraph_step_total[OF assms]] by blast
  then show ?thesis by (simp add: chunk_def)
qed

lemma chunk_Some:
  assumes "chunk c text = Some cs"
  shows "\<exists>st. for_each (paragraph_step c) (paragraphTokenizer c text)
                 \<lparr> chunks = [], bufWords = [], lastBufWords = [] \<rparr> = Some st \<and> cs = chunks st"
  using assms by (auto simp: chunk_def split: option.splits)

text \<open>Chunks are only ever appended.\<close>

lemma word_step_chunks_mono:
  "word_step c w st = Some st' \<Longrightarrow> set (chunks st) \<subseteq> set (chunks st')"
  by (drule word_step_Some) auto

lemma words_chunks_mono:
  assumes "for_each (word_step c) ws st = Some st'"
  shows "set (chunks st) \<subseteq> set (chunks st')"
proof -
  have "set (chunks st) \<subseteq> set (chunks st')"
    by (rule for_each_invariant[where I = "\<lambda>s. set (chunks st) \<subseteq> set (chunks s)", OF assms])
       (auto dest: word_step_chunks_mono)
  then show ?thesis .
qed

lemma paragraph_step_chunks_mono:
  assumes "paragraph_step c p st = Some st'"
  shows "set (chunks st) \<subseteq> set (chunks st')"
proof -
  from paragraph_step_Some[OF assms] obtain st1 where
    w: "for_each (word_step c) (paragraph_words c p) (st\<lparr> lastBufWords := [] \<rparr>) = Some st1"
    and "st' = st1 \<or> (\<exists>ch tr. st' = \<lparr> chunks = chunks st1 @ [ch], bufWords = [], lastBufWords = tr \<rparr>)"
    by blast
  then have "set (chunks st1) \<subseteq> set (chunks st')" by auto
  with words_chunks_mono[OF w] show ?thesis by auto
qed

lemma paragraphs_chunks_mono:
  assumes "for_each (paragraph_step c) ps st = Some st'"
  shows "set (chunks st) \<subseteq> set (chunks st')"
  by (rule for_each_invariant[where I = "\<lambda>s. set (chunks st) \<subseteq> set (chunks s)", OF assms])
     (auto dest: paragraph_step_chunks_mono)

lemma paragraph_step_bufWords:
  "paragraph_step c p st = Some st' \<Longrightarrow> bufWords st' = []"
  by (drule paragraph_step_Some) auto

lemma paragraphs_bufWords:
  assumes "for_each (paragraph_step c) ps st = Some st'" and "bufWords st = []"
  shows "bufWords st' = []"
  by (rule for_each_invariant[where I = "\<lambda>s. bufWords s = []", OF assms])
     (auto dest: paragraph_step_bufWords)

lemma concat_fmt_total:
  assumes "formatWords (wordTokenizer c) = concat" and "0 \<le> chunkOverlap c"
  shows "int (length (formatWords (wordTokenizer c) [])) \<le> chunkOverlap c"
  using assms by simp

subsection \<open>Negative overlap\<close>

lemma neg_word_step:
  assumes "chunkOverlap c < 0" and "word_step c w st = Some st'"
  shows "st' = st\<lparr> bufWords := bufWords st @ [w] \<rparr>"
  using word_step_Some[OF assms(2)] trim_overlap_neg[OF assms(1)] by auto

lemma neg_words:
  assumes "chunkOverlap c < 0"
  shows "for_each (word_step c) ws st = Some st' \<Longrightarrow> st' = st\<lparr> bufWords := bufWords st @ ws \<rparr>"
proof (induction ws arbitrary: st)
  case Nil
  then show ?case by simp
next
  case (Cons w ws)
  from Cons.prems obtain st1 where s1: "word_step c w st = Some st1"
    and rest: "for_each (word_step c) ws st1 = Some st'"
    by (auto split: option.splits)
  from neg_word_step[OF assms s1] Cons.IH[OF rest] show ?case by simp
qed

lemma neg_paragraph_step:
  assumes "chunkOverlap c < 0" and "paragraph_step c p st = Some st'"
  shows "bufWords st = [] \<and> paragraph_words c p = [] \<and> st' = st\<lparr> lastBufWords := [] \<rparr>"
proof -
  from paragraph_step_Some[OF assms(2)] obtain st1 where
    w: "for_each (word_step c) (paragraph_words c p) (st\<lparr> lastBufWords := [] \<rparr>) = Some st1"
    and fin: "(bufWords st1 = [] \<and> st' = st1) \<or>
       (\<exists>tr. trim_overlap (wordTokenizer c) (chunkOverlap c) (lastBufWords st1) = Some tr)"
    by blast
  from fin trim_overlap_neg[OF assms(1)] have e: "bufWords st1 = []" and s: "st' = st1" by auto
  from neg_words[OF assms(1) w] have st1: "st1 = st\<lparr> lastBufWords := [], bufWords := bufWords st @ paragraph_words c p \<rparr>"
    by simp
  with e have "bufWords st = []" "paragraph_words c p = []" by simp_all
  with st1 s show ?thesis by simp
qed

lemma neg_paragraphs:
  assumes "chunkOverlap c < 0"
  shows "for_each (paragraph_step c) ps st = Some st' \<Longrightarrow>
         concat (map (paragraph_words c) ps) = [] \<and> chunks st' = chunks st"
proof (induction ps arbitrary: st)
  case Nil
  then show ?case by simp
next
  case (Cons p ps)
  from Cons.prems obtain st1 where s1: "paragraph_step c p st = Some st1"
    and rest: "for_each (paragraph_step c) ps st1 = Some st'"
    by (auto split: option.splits)
  from neg_paragraph_step[OF assms s1] Cons.IH[OF rest] show ?case by simp
qed

lemma no_words_paragraphs:
  assumes "concat (map (paragraph_words c) ps) = []" and "bufWords st = []"
  shows "\<exists>st'. for_each (paragraph_step c) ps st = Some st' \<and> chunks st' = chunks st"
  using assms
proof (induction ps arbitrary: st)
  case Nil
  then show ?case by simp
next
  case (Cons p ps)
  from Cons.prems have pw: "paragraph_words c p = []" by simp
  have s1: "paragraph_step c p st = Some (st\<lparr> lastBufWords := [] \<rparr>)"
    using pw Cons.prems(2)
    by (simp add: paragraph_step_def sentences_as_words paragraph_words_def[symmetric])
  from Cons.prems have "concat (map (paragraph_words c) ps) = []" by simp
  from Cons.IH[OF this, of "st\<lparr> lastBufWords := [] \<rparr>"] Cons.prems(2) s1 show ?case by simp
qed

lemma neg_chunk:
  assumes "chunkOverlap c < 0"
  shows "chunk c text = (if all_words c text = [] then Some [] else None)"
proof (cases "all_words c text = []")
  case True
  from no_words_paragraphs[of c "paragraphTokenizer c text" "\<lparr> chunks = [], bufWords = [], lastBufWords = [] \<rparr>"]
    True show ?thesis by (auto simp: all_words_def chunk_def)
next
  case False
  have "chunk c text = None"
  proof (rule ccontr)
    assume "chunk c text \<noteq> None"
    then obtain cs where "chunk c text = Some cs" by auto
    from chunk_Some[OF this] obtain st where
      "for_each (paragraph_step c) (paragraphTokenizer c text)
         \<lparr> chunks = [], bufWords = [], lastBufWords = [] \<rparr> = Some st" by blast
    from neg_paragraphs[OF assms this] False show False by (simp add: all_words_def)
  qed
  with False show ?thesis by simp
qed

subsection \<open>Evaluating the tokenizers and the chunker\<close>

lemmas tokenizer_eval =
  chunker_with_def new_SentenceChunker_def no_options_def tokenizeParagraphs_def
  BasicSentenceTokenizer_def BasicWordTokenizer_def js_split_def re_blank_line_def re_ws_def
  re_ws_capture_def re_sentence_end_def trim_def is_ws_def js_def Let_def
  paragraph_words_def all_words_def

lemmas chunk_eval =
  chunk_def paragraph_step_def sentence_step_def word_step_def trim_overlap.simps

lemma chunk_20_5:
  "chunk (chunker_with 20 5) (js ''This is sentence one. This is sentence two.'') =
   Some [js ''This is sentence '', js '' one.This is sentence'', js '' two.'']"
  by (simp add: tokenizer_eval chunk_eval)

subsection \<open>Termination\<close>

text \<open>
  C10: with \<open>chunkOverlap \<ge> 0\<close> (and a word tokenizer whose \<open>formatWords\<close> is the
  concatenation, as that of \<open>BasicWordTokenizer\<close>) \<open>chunk\<close> returns for every text, and so
  does the loop that trims the carried words: while it runs the buffer is not empty, so an
  iteration makes it strictly shorter, and the empty buffer, of reconstructed length 0, ends it.
  With \<open>chunkOverlap < 0\<close> the trimming loop never returns, whatever it starts from, and
  \<open>chunk\<close> returns only for a text without any word token, where nothing is flushed.
\<close>

theorem C10_termination:
  "(formatWords (wordTokenizer c) = concat \<and> 0 \<le> chunkOverlap c \<longrightarrow>
      (\<exists>cs. chunk c text = Some cs))
   \<and> (formatWords (wordTokenizer c) = concat \<and> 0 \<le> chunkOverlap c \<longrightarrow>
      (\<exists>r. trim_overlap (wordTokenizer c) (chunkOverlap c) ws = Some r))
   \<and> (formatWords (wordTokenizer c) = concat \<and> 0 \<le> chunkOverlap c
        \<and> chunkOverlap c < int (length (formatWords (wordTokenizer c) ws)) \<longrightarrow>
      length (drop 1 ws) < length ws)
   \<and> (formatWords (wordTokenizer c) = concat \<and> 0 \<le> chunkOverlap c \<longrightarrow>
      trim_overlap (wordTokenizer c) (chunkOverlap c) [] = Some [])
   \<and> (chunkOverlap c < 0 \<longrightarrow> trim_overlap (wordTokenizer c) (chunkOverlap c) ws = None)
   \<and> (chunkOverlap c < 0 \<longrightarrow>
      chunk c text = (if all_words c text = [] then Some [] else None))"
proof (intro conjI impI)
  assume h: "formatWords (wordTokenizer c) = concat \<and> 0 \<le> chunkOverlap c"
  then have t: "int (length (formatWords (wordTokenizer c) [])) \<le> chunkOverlap c" by simp
  show "\<exists>cs. chunk c text = Some cs" by (rule chunk_total[OF t])
  show "\<exists>r. trim_overlap (wordTokenizer c) (chunkOverlap c) ws = Some r"
    by (rule trim_overlap_total[OF t])
  show "trim_overlap (wordTokenizer c) (chunkOverlap c) [] = Some []"
    using h by (subst trim_overlap.simps) simp
next
  assume "formatWords (wordTokenizer c) = concat \<and> 0 \<le> chunkOverlap c
        \<and> chunkOverlap c < int (length (formatWords (wordTokenizer c) ws))"
  then have "ws \<noteq> []" by auto
  then show "length (drop 1 ws) < length ws" by simp
next
  assume "chunkOverlap c < 0"
  then show "trim_overlap (wordTokenizer c) (chunkOverlap c) ws = None"
    by (rule trim_overlap_neg)
next
  assume "chunkOverlap c < 0"
  then show "chunk c text = (if all_words c text = [] then Some [] else None)"
    by (rule neg_chunk)
qed

text \<open>
  C10, instance: the chunker with \<open>maxChunkSize = 20\<close> and \<open>chunkOverlap = 5\<close> returns on a
  text of two sentences; with \<open>chunkOverlap = -1\<close> it does not.
\<close>

theorem C10_termination_witness:
  "(\<exists>cs. chunk (chunker_with 20 5) (js ''This is sentence one. This is sentence two.'') = Some cs)
   \<and> trim_overlap (wordTokenizer (chunker_with 20 5)) 5 [js ''This'', js '' ''] = Some [js ''This'', js '' '']
   \<and> trim_overlap (wordTokenizer (chunker_with 20 (- 1))) (- 1) [] = None
   \<and> chunk (chunker_with 20 (- 1)) (js ''This is sentence one. This is sentence two.'') = None"
proof -
  have a: "formatWords (wordTokenizer (chunker_with 20 5)) = concat \<and> 0 \<le> chunkOverlap (chunker_with 20 5)"
    by (simp add: tokenizer_eval)
  have b: "chunkOverlap (chunker_with 20 (- 1)) < 0" "chunkOverlap (chunker_with 20 (- 1)) = - 1"
    by (simp_all add: tokenizer_eval)
  have w: "all_words (chunker_with 20 (- 1)) (js ''This is sentence one. This is sentence two.'') \<noteq> []"
    by (simp add: tokenizer_eval)
  have t: "trim_overlap (wordTokenizer (chunker_with 20 5)) 5 [js ''This'', js '' ''] = Some [js ''This'', js '' '']"
    by (simp add: tokenizer_eval trim_overlap.simps)
  from C10_termination[of "chunker_with 20 5" "js ''This is sentence one. This is sentence two.''"] a
    C10_termination[of "chunker_with 20 (- 1)" "js ''This is sentence one. This is sentence two.''" "[]"] b w t
  show ?thesis by simp
qed

subsection \<open>The empty chunk before an oversized first token\<close>

text \<open>
  C8, as stated, fails: with \<open>maxChunkSize = 1\<close>, which is positive, and \<open>chunkOverlap = -1\<close>
  the only paragraph of \<open>"ab"\<close> starts with the token \<open>"ab"\<close>, longer than \<open>maxChunkSize\<close>,
  and \<open>chunk\<close> emits nothing: it does not return.
\<close>

theorem C8_counterexample:
  "0 < maxChunkSize (chunker_with 1 (- 1))
   \<and> paragraphTokenizer (chunker_with 1 (- 1)) (js ''ab'') = [js ''ab'']
   \<and> paragraph_words (chunker_with 1 (- 1)) (js ''ab'') = [js ''ab'']
   \<and> maxChunkSize (chunker_with 1 (- 1)) < int (length (js ''ab''))
   \<and> chunk (chunker_with 1 (- 1)) (js ''ab'') = None"
proof -
  have "chunkOverlap (chunker_with 1 (- 1)) < 0" by (simp add: tokenizer_eval)
  from neg_chunk[OF this, of "js ''ab''"]
  have "chunk (chunker_with 1 (- 1)) (js ''ab'') = None" by (simp add: tokenizer_eval)
  then show ?thesis by (simp add: tokenizer_eval)
qed

text \<open>
  C8, amended: with positive \<open>maxChunkSize\<close>, \<open>chunkOverlap \<ge> 0\<close> and a word tokenizer whose
  \<open>formatWords\<close> is the concatenation, if the first word token of some paragraph of the text is
  longer than \<open>maxChunkSize\<close> then \<open>chunk\<close> returns and the empty string is among its chunks.
\<close>

theorem C8_amended:
  assumes "0 < maxChunkSize c" and "0 \<le> chunkOverlap c"
    and "formatWords (wordTokenizer c) = concat"
    and "p \<in> set (paragraphTokenizer c text)"
    and "paragraph_words c p = w # ws"
    and "maxChunkSize c < int (length w)"
  shows "\<exists>cs. chunk c text = Some cs \<and> [] \<in> set cs"
proof -
  have t: "int (length (formatWords (wordTokenizer c) [])) \<le> chunkOverlap c"
    using assms(2,3) by simp
  obtain cs where cs: "chunk c text = Some cs" using chunk_total[OF t] by blast
  from chunk_Some[OF cs] obtain st where
    run: "for_each (paragraph_step c) (paragraphTokenizer c text)
            \<lparr> chunks = [], bufWords = [], lastBufWords = [] \<rparr> = Some st"
    and cs_st: "cs = chunks st" by blast
  from assms(4) obtain ps1 ps2 where ps: "paragraphTokenizer c text = ps1 @ p # ps2"
    by (auto dest: split_list)
  from run obtain st1 st2 where
    r1: "for_each (paragraph_step c) ps1 \<lparr> chunks = [], bufWords = [], lastBufWords = [] \<rparr> = Some st1"
    and r2: "paragraph_step c p st1 = Some st2"
    and r3: "for_each (paragraph_step c) ps2 st2 = Some st"
    unfolding ps by (auto simp: for_each_append split: option.splits)
  have b1: "bufWords st1 = []" using paragraphs_bufWords[OF r1] by simp
  from paragraph_step_Some[OF r2] obtain stA where
    wA: "for_each (word_step c) (w # ws) (st1\<lparr> lastBufWords := [] \<rparr>) = Some stA"
    and "st2 = stA \<or> (\<exists>ch tr. st2 = \<lparr> chunks = chunks stA @ [ch], bufWords = [], lastBufWords = tr \<rparr>)"
    unfolding assms(5) by blast
  then have mA: "set (chunks stA) \<subseteq> set (chunks st2)" by auto
  from wA obtain stB where
    wB: "word_step c w (st1\<lparr> lastBufWords := [] \<rparr>) = Some stB"
    and wR: "for_each (word_step c) ws stB = Some stA"
    by (auto split: option.splits)
  have over: "maxChunkSize c < int (length (formatWords (wordTokenizer c) (bufWords (st1\<lparr> lastBufWords := [] \<rparr>) @ [w])))"
    using assms(3,6) b1 by simp
  from word_step_Some[OF wB] over obtain tr where
    tr: "trim_overlap (wordTokenizer c) (chunkOverlap c) [] = Some tr"
    and stB: "chunks stB = chunks st1 @ [formatWords (wordTokenizer c) (tr @ bufWords st1)]"
    by auto
  from trim_overlap_Some[OF tr] have "tr = []" by simp
  with stB b1 assms(3) have "[] \<in> set (chunks stB)" by simp
  with words_chunks_mono[OF wR] mA paragraphs_chunks_mono[OF r3] cs_st
  have "[] \<in> set cs" by blast
  with cs show ?thesis by blast
qed

text \<open>
  C8, instance: \<open>maxChunkSize = 1\<close>, \<open>chunkOverlap = 0\<close> and the text \<open>"ab"\<close>.
\<close>

theorem C8_amended_witness:
  "0 < maxChunkSize (chunker_with 1 0) \<and> 0 \<le> chunkOverlap (chunker_with 1 0)
   \<and> js ''ab'' \<in> set (paragraphTokenizer (chunker_with 1 0) (js ''ab''))
   \<and> paragraph_words (chunker_with 1 0) (js ''ab'') = [js ''ab'']
   \<and> maxChunkSize (chunker_with 1 0) < int (length (js ''ab''))
   \<and> (\<exists>cs. chunk (chunker_with 1 0) (js ''ab'') = Some cs \<and> [] \<in> set cs)"
proof -
  have h: "0 < maxChunkSize (chunker_with 1 0)" "0 \<le> chunkOverlap (chunker_with 1 0)"
    "formatWords (wordTokenizer (chunker_with 1 0)) = concat"
    "js ''ab'' \<in> set (paragraphTokenizer (chunker_with 1 0) (js ''ab''))"
    "paragraph_words (chunker_with 1 0) (js ''ab'') = [js ''ab'']"
    "maxChunkSize (chunker_with 1 0) < int (length (js ''ab''))"
    by (simp_all add: tokenizer_eval)
  from C8_amended[OF h] h show ?thesis by simp
qed

subsection \<open>The length of a chunk\<close>

lemma flushed_chunk_bound:
  assumes fmt: "formatWords (wordTokenizer c) = concat"
    and tr: "trim_overlap (wordTokenizer c) (chunkOverlap c) carry = Some tr"
    and buf: "(buf = [] \<and> w \<in> set W) \<or> int (length (concat buf)) \<le> maxChunkSize c
         \<or> (\<exists>w\<in>set W. buf = [w])"
  shows "chunk_bound c W (formatWords (wordTokenizer c) (tr @ buf))"
proof -
  from trim_overlap_Some[OF tr] fmt have t: "int (length (concat tr)) \<le> chunkOverlap c" by simp
  have len: "int (length (concat (tr @ buf))) = int (length (concat tr)) + int (length (concat buf))"
    by simp
  from buf consider (empty) "buf = []" "w \<in> set W" | (small) "int (length (concat buf)) \<le> maxChunkSize c"
    | (single) w' where "w' \<in> set W" "buf = [w']" by blast
  then show ?thesis
  proof cases
    case empty
    then have "int (length (concat (tr @ buf))) \<le> chunkOverlap c + int (length w)"
      using t by simp
    with empty(2) show ?thesis unfolding chunk_bound_def fmt by blast
  next
    case small
    with t len show ?thesis unfolding chunk_bound_def fmt by linarith
  next
    case single
    then have "int (length (concat (tr @ buf))) \<le> chunkOverlap c + int (length w')"
      using t by simp
    with single(1) show ?thesis unfolding chunk_bound_def fmt by blast
  qed
qed

lemma word_step_pending_ok:
  assumes fmt: "formatWords (wordTokenizer c) = concat"
    and w: "w \<in> set W" and ok: "pending_ok c W st" and step: "word_step c w st = Some st'"
  shows "pending_ok c W st'"
proof -
  from word_step_Some[OF step] consider
    (keep) "\<not> maxChunkSize c < int (length (concat (bufWords st @ [w])))"
           "st' = st\<lparr> bufWords := bufWords st @ [w] \<rparr>"
  | (flush) tr where "trim_overlap (wordTokenizer c) (chunkOverlap c) (lastBufWords st) = Some tr"
           "st' = \<lparr> chunks = chunks st @ [formatWords (wordTokenizer c) (tr @ bufWords st)],
                    bufWords = [w], lastBufWords = bufWords st \<rparr>"
    unfolding fmt by blast
  then show ?thesis
  proof cases
    case keep
    with ok show ?thesis by (simp add: pending_ok_def)
  next
    case flush
    from ok have "(bufWords st = [] \<and> w \<in> set W) \<or> int (length (concat (bufWords st))) \<le> maxChunkSize c
         \<or> (\<exists>w\<in>set W. bufWords st = [w])"
      using w by (auto simp: pending_ok_def)
    from flushed_chunk_bound[OF fmt flush(1) this]
    show ?thesis using ok w flush(2) by (simp add: pending_ok_def)
  qed
qed

lemma paragraph_step_pending_ok:
  assumes fmt: "formatWords (wordTokenizer c) = concat"
    and sub: "set (paragraph_words c p) \<subseteq> set W"
    and ok: "pending_ok c W st" and step: "paragraph_step c p st = Some st'"
  shows "pending_ok c W st'"
proof -
  from paragraph_step_Some[OF step] obtain st1 where
    run: "for_each (word_step c) (paragraph_words c p) (st\<lparr> lastBufWords := [] \<rparr>) = Some st1"
    and fin: "(bufWords st1 = [] \<and> st' = st1)
              \<or> (bufWords st1 \<noteq> []
                  \<and> (\<exists>tr. trim_overlap (wordTokenizer c) (chunkOverlap c) (lastBufWords st1) = Some tr
                       \<and> st' = \<lparr> chunks = chunks st1 @ [formatWords (wordTokenizer c) (tr @ bufWords st1)],
                                 bufWords = [], lastBufWords = tr \<rparr>))"
    by blast
  have ok0: "pending_ok c W (st\<lparr> lastBufWords := [] \<rparr>)" using ok by (simp add: pending_ok_def)
  have ok1: "pending_ok c W st1"
  proof (rule for_each_invariant[where I = "pending_ok c W", OF run ok0])
    fix x a b
    assume "x \<in> set (paragraph_words c p)" "pending_ok c W a" "word_step c x a = Some b"
    then show "pending_ok c W b" using word_step_pending_ok[OF fmt, of x W a b] sub by blast
  qed
  from fin show ?thesis
  proof
    assume "bufWords st1 = [] \<and> st' = st1"
    with ok1 show ?thesis by simp
  next
    assume "bufWords st1 \<noteq> []
                  \<and> (\<exists>tr. trim_overlap (wordTokenizer c) (chunkOverlap c) (lastBufWords st1) = Some tr
                       \<and> st' = \<lparr> chunks = chunks st1 @ [formatWords (wordTokenizer c) (tr @ bufWords st1)],
                                 bufWords = [], lastBufWords = tr \<rparr>)"
    then obtain tr where ne: "bufWords st1 \<noteq> []"
      and tr: "trim_overlap (wordTokenizer c) (chunkOverlap c) (lastBufWords st1) = Some tr"
      and st': "st' = \<lparr> chunks = chunks st1 @ [formatWords (wordTokenizer c) (tr @ bufWords st1)],
                                 bufWords = [], lastBufWords = tr \<rparr>" by blast
    from ok1 ne have "(bufWords st1 = [] \<and> [] \<in> set W) \<or> int (length (concat (bufWords st1))) \<le> maxChunkSize c
         \<or> (\<exists>w\<in>set W. bufWords st1 = [w])"
      by (auto simp: pending_ok_def)
    from flushed_chunk_bound[OF fmt tr this] ok1 st'
    show ?thesis by (simp add: pending_ok_def)
  qed
qed

text \<open>
  C1, as stated, fails: with \<open>maxChunkSize = 20\<close> and \<open>chunkOverlap = 5\<close> every word token of
  \<open>"a b c d e f g h i j k l m n o p q r s t u"\<close> has length 1, and the second chunk has length
  25, which is more than \<open>maxChunkSize\<close> plus the length of one token.
\<close>

theorem C1_counterexample:
  "chunk (chunker_with 20 5) (js ''a b c d e f g h i j k l m n o p q r s t u'') =
     Some [js ''a b c d e f g h i j '', js '' i j k l m n o p q r s t '', js '' s t u'']
   \<and> set (map length (all_words (chunker_with 20 5) (js ''a b c d e f g h i j k l m n o p q r s t u''))) = {1}
   \<and> \<not> int (length (js '' i j k l m n o p q r s t '')) \<le> maxChunkSize (chunker_with 20 5) + 1"
proof -
  have "chunk (chunker_with 20 5) (js ''a b c d e f g h i j k l m n o p q r s t u'') =
     Some [js ''a b c d e f g h i j '', js '' i j k l m n o p q r s t '', js '' s t u'']"
    by (simp add: tokenizer_eval chunk_eval)
  moreover have "set (map length (all_words (chunker_with 20 5) (js ''a b c d e f g h i j k l m n o p q r s t u''))) = {1}"
    by (simp add: tokenizer_eval)
  moreover have "\<not> int (length (js '' i j k l m n o p q r s t '')) \<le> maxChunkSize (chunker_with 20 5) + 1"
    by (simp add: tokenizer_eval)
  ultimately show ?thesis by blast
qed

text \<open>
  C1, amended: with a word tokenizer whose \<open>formatWords\<close> is the concatenation, \<open>chunk\<close>
  fails to return only when \<open>chunkOverlap\<close> is negative, and every chunk it returns is at most
  \<open>chunkOverlap + maxChunkSize\<close> long, or at most \<open>chunkOverlap\<close> plus the length of one word
  token of the text: a chunk is the carried words, trimmed to \<open>chunkOverlap\<close>, followed by the
  pending words, which are no longer than \<open>maxChunkSize\<close> or a single token.
\<close>

theorem C1_amended:
  assumes "formatWords (wordTokenizer c) = concat"
  shows "case chunk c text of
           None \<Rightarrow> chunkOverlap c < 0
         | Some cs \<Rightarrow>
             \<forall>ch\<in>set cs.
               int (length ch) \<le> chunkOverlap c + maxChunkSize c
               \<or> (\<exists>w\<in>set (all_words c text). int (length ch) \<le> chunkOverlap c + int (length w))"
proof (cases "chunk c text")
  case None
  have "chunkOverlap c < 0"
  proof (rule ccontr)
    assume "\<not> chunkOverlap c < 0"
    with assms have "int (length (formatWords (wordTokenizer c) [])) \<le> chunkOverlap c" by simp
    from chunk_total[OF this, of "text"] None show False by simp
  qed
  with None show ?thesis by simp
next
  case (Some cs)
  from chunk_Some[OF Some] obtain st where
    run: "for_each (paragraph_step c) (paragraphTokenizer c text)
            \<lparr> chunks = [], bufWords = [], lastBufWords = [] \<rparr> = Some st"
    and cs: "cs = chunks st" by blast
  have ok0: "pending_ok c (all_words c text) \<lparr> chunks = [], bufWords = [], lastBufWords = [] \<rparr>"
    by (simp add: pending_ok_def)
  have "pending_ok c (all_words c text) st"
  proof (rule for_each_invariant[where I = "pending_ok c (all_words c text)", OF run ok0])
    fix p a b
    assume p: "p \<in> set (paragraphTokenizer c text)"
      and a: "pending_ok c (all_words c text) a" and s: "paragraph_step c p a = Some b"
    from p have "set (paragraph_words c p) \<subseteq> set (all_words c text)"
      by (auto simp: all_words_def)
    from paragraph_step_pending_ok[OF assms this a s] show "pending_ok c (all_words c text) b" .
  qed
  then have "\<forall>ch\<in>set cs. chunk_bound c (all_words c text) ch"
    by (simp add: pending_ok_def cs)
  with Some show ?thesis by (simp add: chunk_bound_def)
qed

text \<open>
  C1, instance: the second chunk of \<open>"a b c d e f"\<close> with \<open>maxChunkSize = 4\<close> and
  \<open>chunkOverlap = 4\<close>, of length 8.
\<close>

theorem C1_amended_witness:
  "formatWords (wordTokenizer (chunker_with 4 4)) = concat
   \<and> chunk (chunker_with 4 4) (js ''a b c d e f'') =
       Some [js ''a b '', js ''a b c d '', js ''c d e f'']
   \<and> (int (length (js ''a b c d '')) \<le> chunkOverlap (chunker_with 4 4) + maxChunkSize (chunker_with 4 4)
      \<or> (\<exists>w\<in>set (all_words (chunker_with 4 4) (js ''a b c d e f'')).
            int (length (js ''a b c d '')) \<le> chunkOverlap (chunker_with 4 4) + int (length w)))"
proof -
  have fmt: "formatWords (wordTokenizer (chunker_with 4 4)) = concat"
    by (simp add: tokenizer_eval)
  have ch: "chunk (chunker_with 4 4) (js ''a b c d e f'') =
     Some [js ''a b '', js ''a b c d '', js ''c d e f'']"
    by (simp add: tokenizer_eval chunk_eval)
  from C1_amended[OF fmt, of "js ''a b c d e f''"] ch fmt show ?thesis by simp
qed

subsection \<open>Two sentences, \<open>maxChunkSize = 20\<close>, \<open>chunkOverlap = 5\<close>\<close>

text \<open>
  C5: with \<open>maxChunkSize = 20\<close>, \<open>chunkOverlap = 5\<close> and the default tokenizers, the text
  \<open>"This is sentence one. This is sentence two."\<close> (one paragraph) gives three chunks, and
  each chunk after the first begins with a suffix, of at most 5 characters, of the chunk before
  it. The words carried over are \<open>" "\<close> into the second chunk and none into the third.
\<close>

theorem C5_overlap_example:
  "\<exists>cs. chunk (chunker_with 20 5) (js ''This is sentence one. This is sentence two.'') = Some cs
     \<and> cs = [js ''This is sentence '', js '' one.This is sentence'', js '' two.'']
     \<and> 2 \<le> length cs
     \<and> (\<forall>k. Suc k < length cs \<longrightarrow>
           (\<exists>s. suffix s (cs ! k) \<and> prefix s (cs ! Suc k) \<and> length s \<le> 5))"
proof -
  let ?cs = "[js ''This is sentence '', js '' one.This is sentence'', js '' two.'']"
  have "\<exists>s. suffix s (?cs ! k) \<and> prefix s (?cs ! Suc k) \<and> length s \<le> 5" if "Suc k < length ?cs" for k
  proof -
    from that have "k = 0 \<or> k = 1" by auto
    then show ?thesis
    proof
      assume "k = 0"
      have "suffix (js '' '') (js ''This is sentence '')" 
        by (rule suffixI[of _ "js ''This is sentence''"]) (simp add: js_def)
      moreover have "prefix (js '' '') (js '' one.This is sentence'')" by (simp add: js_def)
      ultimately show ?thesis using \<open>k = 0\<close> by (intro exI[of _ "js '' ''"]) (simp add: js_def)
    next
      assume "k = 1"
      then show ?thesis by (intro exI[of _ "[]"]) simp
    qed
  qed
  with chunk_20_5 show ?thesis by simp
qed

text \<open>
  C5, instance: the first two chunks.
\<close>

theorem C5_overlap_example_witness:
  "\<exists>cs. chunk (chunker_with 20 5) (js ''This is sentence one. This is sentence two.'') = Some cs
     \<and> (\<exists>s. suffix s (cs ! 0) \<and> prefix s (cs ! 1) \<and> length s \<le> 5)"
proof -
  from C5_overlap_example obtain cs where
    c: "chunk (chunker_with 20 5) (js ''This is sentence one. This is sentence two.'') = Some cs"
    and l: "2 \<le> length cs"
    and o: "\<forall>k. Suc k < length cs \<longrightarrow>
           (\<exists>s. suffix s (cs ! k) \<and> prefix s (cs ! Suc k) \<and> length s \<le> 5)"
    by blast
  from l have "Suc 0 < length cs" by simp
  with o have "\<exists>s. suffix s (cs ! 0) \<and> prefix s (cs ! Suc 0) \<and> length s \<le> 5" by blast
  with c show ?thesis by auto
qed

text \<open>
  C9: a chunk need not be a substring of the text. The sentence tokenizer drops the white
  space after the full stop, so the second chunk of the text of two sentences runs
  \<open>"one."\<close> and \<open>"This"\<close> together, and \<open>" one.This is sentence"\<close> does not occur in the text.
\<close>

theorem C9_chunk_not_substring:
  "BasicSentenceTokenizer (js ''This is sentence one. This is sentence two.'') =
     [js ''This is sentence one.'', js ''This is sentence two.'']
   \<and> chunk (chunker_with 20 5) (js ''This is sentence one. This is sentence two.'') =
     Some [js ''This is sentence '', js '' one.This is sentence'', js '' two.'']
   \<and> \<not> sublist (js '' one.This is sentence'') (js ''This is sentence one. This is sentence two.'')"
proof -
  have "\<not> sublist (js '' one.This is sentence'') (js ''This is sentence one. This is sentence two.'')"
    by (simp add: js_def sublist_Cons_right)
  moreover have "BasicSentenceTokenizer (js ''This is sentence one. This is sentence two.'') =
     [js ''This is sentence one.'', js ''This is sentence two.'']"
    by (simp add: tokenizer_eval)
  ultimately show ?thesis using chunk_20_5 by simp
qed

section \<open>The ingestion pipeline\<close>

lemma create_missing_frame:
  "docs (create_missing env names listed w) = docs w
   \<and> insertMany_calls (create_missing env names listed w) = insertMany_calls w
   \<and> embedding_requests (create_missing env names listed w) = embedding_requests w
   \<and> connected (create_missing env names listed w) = connected w"
  by (induction env names listed w rule: create_missing.induct) (auto split: option.splits)

lemma getCollection_ok:
  assumes "connected w \<or> client_connect env = None"
  shows "\<exists>w1. getCollection env b w = (None, w1) \<and> docs w1 = docs w
           \<and> insertMany_calls w1 = insertMany_calls w
           \<and> embedding_requests w1 = embedding_requests w \<and> connected w1"
  using assms
  by (auto simp: getCollection_def connectToDatabase_def create_missing_frame split: option.splits)

lemma insertMany_accepted:
  assumes "\<forall>d. write_error env (length (insertMany_calls w)) d = None"
  shows "insertMany env ds w =
           (None, w\<lparr> docs := docs w @ ds, insertMany_calls := insertMany_calls w @ [ds] \<rparr>)"
proof -
  have "List.map_filter (write_error env (length (insertMany_calls w))) ds = []"
    using assms by (simp add: List.map_filter_def)
  then show ?thesis using assms by (simp add: insertMany_def)
qed

lemma process_text_failed:
  assumes "embeddings_create env (embedding_requests w) t (embeddingsModel b) (embeddingsDimension b) = Inl e"
  shows "process_text env b (idx, t) (buf, w) =
           (buf, w\<lparr> embedding_requests := Suc (embedding_requests w),
                   logged := logged w @ [ErrorProcessingDocument idx e] \<rparr>)"
  using assms by (simp add: process_text_def createEmbeddings_def)

lemma process_text_buffered:
  assumes "embeddings_create env (embedding_requests w) t (embeddingsModel b) (embeddingsDimension b) = Inr v"
    and "length buf < 99"
  shows "\<exists>d w'. process_text env b (idx, t) (buf, w) = (buf @ [d], w')
           \<and> content d = t \<and> embedding d = v \<and> index (metadata d) = idx
           \<and> docs w' = docs w \<and> insertMany_calls w' = insertMany_calls w
           \<and> embedding_requests w' = Suc (embedding_requests w) \<and> logged w' = logged w"
  using assms by (simp add: process_text_def createEmbeddings_def new_document_def)

lemma process_text_flushed:
  assumes "embeddings_create env (embedding_requests w) t (embeddingsModel b) (embeddingsDimension b) = Inr v"
    and "\<not> length buf < 99"
    and "\<forall>d. write_error env (length (insertMany_calls w)) d = None"
  shows "\<exists>d w'. process_text env b (idx, t) (buf, w) = ([], w')
           \<and> content d = t \<and> embedding d = v \<and> index (metadata d) = idx
           \<and> docs w' = docs w @ buf @ [d] \<and> insertMany_calls w' = insertMany_calls w @ [buf @ [d]]
           \<and> embedding_requests w' = Suc (embedding_requests w) \<and> logged w' = logged w"
proof -
  obtain d w2 where nd: "new_document env b idx t v (w\<lparr> embedding_requests := Suc (embedding_requests w) \<rparr>) = (d, w2)"
    by (cases "new_document env b idx t v (w\<lparr> embedding_requests := Suc (embedding_requests w) \<rparr>)")
  then have d: "content d = t" "embedding d = v" "index (metadata d) = idx"
    and w2: "docs w2 = docs w" "insertMany_calls w2 = insertMany_calls w"
      "embedding_requests w2 = Suc (embedding_requests w)" "logged w2 = logged w"
    by (auto simp: new_document_def)
  have acc: "\<forall>d. write_error env (length (insertMany_calls w2)) d = None"
    using assms(3) w2 by simp
  have "process_text env b (idx, t) (buf, w) =
          ([], w2\<lparr> docs := docs w2 @ buf @ [d], insertMany_calls := insertMany_calls w2 @ [buf @ [d]] \<rparr>)"
    using assms(1,2) nd insertMany_accepted[OF acc, of "buf @ [d]"]
    by (simp add: process_text_def createEmbeddings_def)
  with d w2 show ?thesis by simp
qed


lemma fold_process_all_ok:
  assumes acc: "\<forall>k d. write_error env k d = None"
  shows "length buf < 100 \<Longrightarrow>
     (\<forall>i<length xs. \<exists>v. embeddings_create env (embedding_requests w + i) (xs ! i)
                          (embeddingsModel b) (embeddingsDimension b) = Inr v) \<Longrightarrow>
     \<exists>buf' w' bs. fold (process_text env b) (enumerate n xs) (buf, w) = (buf', w')
        \<and> insertMany_calls w' = insertMany_calls w @ bs
        \<and> map length bs = replicate ((length buf + length xs) div 100) 100
        \<and> length buf' = (length buf + length xs) mod 100
        \<and> map content (concat bs @ buf') = map content buf @ xs"
proof (induction xs arbitrary: buf w n)
  case Nil
  then show ?case by simp
next
  case (Cons x xs)
  from Cons.prems(2) obtain v where
    v: "embeddings_create env (embedding_requests w) x (embeddingsModel b) (embeddingsDimension b) = Inr v"
    by fastforce
  have later: "\<forall>i<length xs. \<exists>v. embeddings_create env (Suc (embedding_requests w) + i) (xs ! i)
                          (embeddingsModel b) (embeddingsDimension b) = Inr v"
  proof (intro allI impI)
    fix i assume "i < length xs"
    then have "Suc i < length (x # xs)" by simp
    from Cons.prems(2)[rule_format, OF this] show "\<exists>v. embeddings_create env (Suc (embedding_requests w) + i) (xs ! i)
                          (embeddingsModel b) (embeddingsDimension b) = Inr v" by simp
  qed
  show ?case
  proof (cases "length buf < 99")
    case True
    from process_text_buffered[OF v True, of n] obtain d w1 where
      step: "process_text env b (n, x) (buf, w) = (buf @ [d], w1)"
      and d: "content d = x"
      and w1: "insertMany_calls w1 = insertMany_calls w" "embedding_requests w1 = Suc (embedding_requests w)"
      by blast
    have "length (buf @ [d]) < 100" using True by simp
    from Cons.IH[OF this, of w1 "Suc n"] later w1 obtain buf' w' bs where
      "fold (process_text env b) (enumerate (Suc n) xs) (buf @ [d], w1) = (buf', w')"
      "insertMany_calls w' = insertMany_calls w @ bs"
      "map length bs = replicate ((length (buf @ [d]) + length xs) div 100) 100"
      "length buf' = (length (buf @ [d]) + length xs) mod 100"
      "map content (concat bs @ buf') = map content (buf @ [d]) @ xs"
      by auto
    with step d show ?thesis by simp
  next
    case False
    with Cons.prems(1) have len: "length buf = 99" by simp
    from process_text_flushed[OF v False, of n] acc obtain d w1 where
      step: "process_text env b (n, x) (buf, w) = ([], w1)"
      and d: "content d = x"
      and w1: "insertMany_calls w1 = insertMany_calls w @ [buf @ [d]]"
        "embedding_requests w1 = Suc (embedding_requests w)"
      by blast
    have "length ([] :: 'a RAGDocument list) < 100" by simp
    from Cons.IH[OF this, of w1 "Suc n"] later w1 obtain buf' w' bs where r:
      "fold (process_text env b) (enumerate (Suc n) xs) ([], w1) = (buf', w')"
      "insertMany_calls w' = insertMany_calls w @ [buf @ [d]] @ bs"
      "map length bs = replicate (length xs div 100) 100"
      "length buf' = length xs mod 100"
      "map content (concat bs @ buf') = xs"
      by auto
    have total: "length buf + length (x # xs) = 100 + length xs" using len by simp
    have a: "(length buf + length (x # xs)) div 100 = Suc (length xs div 100)"
      and m: "(length buf + length (x # xs)) mod 100 = length xs mod 100"
      unfolding total by simp_all
    show ?thesis
    proof (intro exI conjI)
      show "fold (process_text env b) (enumerate n (x # xs)) (buf, w) = (buf', w')"
        using step r(1) by simp
      show "insertMany_calls w' = insertMany_calls w @ ((buf @ [d]) # bs)" using r(2) by simp
      have "map length ((buf @ [d]) # bs) = 100 # replicate (length xs div 100) 100"
        using r(3) len by simp
      also have "\<dots> = replicate (Suc (length xs div 100)) 100" by simp
      finally show "map length ((buf @ [d]) # bs) = replicate ((length buf + length (x # xs)) div 100) 100"
        unfolding a .
      show "length buf' = (length buf + length (x # xs)) mod 100" using r(4) m by simp
      show "map content (concat ((buf @ [d]) # bs) @ buf') = map content buf @ x # xs"
        using r(5) d by simp
    qed
  qed
qed

lemmas pipeline_eval =
  buildFromTexts_def getCollection_def connectToDatabase_def index_names_def
  process_text_def createEmbeddings_def new_document_def insertMany_def List.map_filter_def
  scripted_env_def world_with_def default_builder_def new_RAGBuilder_def

text \<open>
  C2: three units with non-empty trimmed content, the embedding request failing for the second
  one only, on a store that is reachable and accepts the records: \<open>buildFromTexts\<close> does not
  raise, the one bulk insert holds the records of the first and of the third unit (with the
  indexes 0 and 2 of the filtered list), nothing else reaches the store, and the error of the
  second unit is logged.
\<close>

theorem C2_embedding_failure_isolated:
  assumes "connected w \<or> client_connect env = None"
    and "length (trim t1) > 0" and "length (trim t2) > 0" and "length (trim t3) > 0"
    and "embeddings_create env (embedding_requests w) t1 (embeddingsModel b) (embeddingsDimension b) = Inr v1"
    and "embeddings_create env (embedding_requests w + 1) t2 (embeddingsModel b) (embeddingsDimension b) = Inl e"
    and "embeddings_create env (embedding_requests w + 2) t3 (embeddingsModel b) (embeddingsDimension b) = Inr v3"
    and "\<forall>d. write_error env (length (insertMany_calls w)) d = None"
  shows "\<exists>w' d1 d3. buildFromTexts env b [t1, t2, t3] w = (None, w')
           \<and> insertMany_calls w' = insertMany_calls w @ [[d1, d3]]
           \<and> docs w' = docs w @ [d1, d3]
           \<and> content d1 = t1 \<and> embedding d1 = v1 \<and> index (metadata d1) = 0
           \<and> content d3 = t3 \<and> embedding d3 = v3 \<and> index (metadata d3) = 2
           \<and> ErrorProcessingDocument 1 e \<in> set (logged w')"
proof -
  from getCollection_ok[OF assms(1), of b] obtain w0 where
    g: "getCollection env b w = (None, w0)"
    and w0: "docs w0 = docs w" "insertMany_calls w0 = insertMany_calls w"
      "embedding_requests w0 = embedding_requests w"
    by blast
  have e1: "embeddings_create env (embedding_requests w0) t1 (embeddingsModel b) (embeddingsDimension b) = Inr v1"
    using assms(5) w0 by simp
  from process_text_buffered[OF e1, of "[]" 0] obtain d1 w1 where
    s1: "process_text env b (0, t1) ([], w0) = ([d1], w1)"
    and d1: "content d1 = t1" "embedding d1 = v1" "index (metadata d1) = 0"
    and w1: "docs w1 = docs w" "insertMany_calls w1 = insertMany_calls w"
      "embedding_requests w1 = Suc (embedding_requests w)"
    using w0 by auto
  have e2: "embeddings_create env (embedding_requests w1) t2 (embeddingsModel b) (embeddingsDimension b) = Inl e"
    using assms(6) w1 by simp
  define w2 where "w2 = w1\<lparr> embedding_requests := Suc (embedding_requests w1),
                   logged := logged w1 @ [ErrorProcessingDocument 1 e] \<rparr>"
  have s2: "process_text env b (1, t2) ([d1], w1) = ([d1], w2)"
    using process_text_failed[OF e2, of 1 "[d1]"] by (simp add: w2_def)
  have w2: "docs w2 = docs w" "insertMany_calls w2 = insertMany_calls w"
    "embedding_requests w2 = Suc (Suc (embedding_requests w))"
    "ErrorProcessingDocument 1 e \<in> set (logged w2)"
    using w1 by (simp_all add: w2_def)
  have e3: "embeddings_create env (embedding_requests w2) t3 (embeddingsModel b) (embeddingsDimension b) = Inr v3"
    using assms(7) w2 by simp
  from process_text_buffered[OF e3, of "[d1]" 2] obtain d3 w3 where
    s3: "process_text env b (2, t3) ([d1], w2) = ([d1, d3], w3)"
    and d3: "content d3 = t3" "embedding d3 = v3" "index (metadata d3) = 2"
    and w3: "docs w3 = docs w" "insertMany_calls w3 = insertMany_calls w"
      "ErrorProcessingDocument 1 e \<in> set (logged w3)"
    using w2 by auto
  have acc: "\<forall>d. write_error env (length (insertMany_calls w3)) d = None"
    using assms(8) w3 by simp
  have run: "fold (process_text env b) (enumerate 0 [t1, t2, t3]) ([], w0) = ([d1, d3], w3)"
    using s1 s2 s3 by (simp add: numeral_2_eq_2)
  have "buildFromTexts env b [t1, t2, t3] w =
          (None, w3\<lparr> docs := docs w3 @ [d1, d3], insertMany_calls := insertMany_calls w3 @ [[d1, d3]] \<rparr>)"
    using g assms(2,3,4) run insertMany_accepted[OF acc, of "[d1, d3]"]
    by (simp add: buildFromTexts_def)
  with d1 d3 w3 show ?thesis by simp
qed

text \<open>
  C2, instance: the second embedding request fails.
\<close>

theorem C2_embedding_failure_isolated_witness:
  "\<exists>w' d1 d3.
     buildFromTexts (scripted_env (\<lambda>k. k = 1) []) (new_RAGBuilder \<lparr> opt_databaseName = None,
        opt_collectionName = None, opt_embeddingsDimension = None, opt_embeddingsModel = None,
        opt_uid = Some (js ''owner-1'') \<rparr>)
       [js ''first unit'', js ''second'', js ''third one''] (world_with []) = (None, w')
     \<and> insertMany_calls w' = [[d1, d3]] \<and> docs w' = [d1, d3]
     \<and> content d1 = js ''first unit'' \<and> content d3 = js ''third one''
     \<and> index (metadata d1) = 0 \<and> index (metadata d3) = 2"
proof -
  let ?env = "scripted_env (\<lambda>k. k = 1) []"
  let ?b = "new_RAGBuilder \<lparr> opt_databaseName = None,
        opt_collectionName = None, opt_embeddingsDimension = None, opt_embeddingsModel = None,
        opt_uid = Some (js ''owner-1'') \<rparr>"
  have h: "connected (world_with []) \<or> client_connect ?env = None"
    "length (trim (js ''first unit'')) > 0" "length (trim (js ''second'')) > 0"
    "length (trim (js ''third one'')) > 0"
    "embeddings_create ?env (embedding_requests (world_with [])) (js ''first unit'')
       (embeddingsModel ?b) (embeddingsDimension ?b) = Inr 10"
    "embeddings_create ?env (embedding_requests (world_with []) + 1) (js ''second'')
       (embeddingsModel ?b) (embeddingsDimension ?b) = Inl (Error (js ''service unavailable''))"
    "embeddings_create ?env (embedding_requests (world_with []) + 2) (js ''third one'')
       (embeddingsModel ?b) (embeddingsDimension ?b) = Inr 9"
    "\<forall>d. write_error ?env (length (insertMany_calls (world_with []))) d = None"
    by (simp_all add: scripted_env_def world_with_def trim_def is_ws_def js_def)
  from C2_embedding_failure_isolated[OF h] show ?thesis
    by (simp add: world_with_def) blast
qed

text \<open>
  C4: 250 units with non-empty trimmed content, every embedding request succeeding, on a store
  that is reachable and accepts the records: \<open>insertMany\<close> is called exactly three times, with
  100, 100 and 50 records, in the order of the units.
\<close>

theorem C4_batches:
  assumes "connected w \<or> client_connect env = None"
    and "\<forall>k d. write_error env k d = None"
    and "length texts = 250"
    and "\<forall>t\<in>set texts. length (trim t) > 0"
    and "\<forall>i<250. \<exists>v. embeddings_create env (embedding_requests w + i) (texts ! i)
                        (embeddingsModel b) (embeddingsDimension b) = Inr v"
  shows "\<exists>w' b1 b2 b3. buildFromTexts env b texts w = (None, w')
           \<and> insertMany_calls w' = insertMany_calls w @ [b1, b2, b3]
           \<and> length b1 = 100 \<and> length b2 = 100 \<and> length b3 = 50
           \<and> map content (b1 @ b2 @ b3) = texts"
proof -
  from getCollection_ok[OF assms(1), of b] obtain w1 where
    g: "getCollection env b w = (None, w1)"
    and w1: "insertMany_calls w1 = insertMany_calls w" "embedding_requests w1 = embedding_requests w"
    by blast
  have valid: "filter (\<lambda>text. length (trim text) > 0) texts = texts"
    using assms(4) by (simp add: filter_id_conv)
  have emb: "\<forall>i<length texts. \<exists>v. embeddings_create env (embedding_requests w1 + i) (texts ! i)
                        (embeddingsModel b) (embeddingsDimension b) = Inr v"
    using assms(3,5) w1 by simp
  have "length ([] :: 'a RAGDocument list) < 100" by simp
  from fold_process_all_ok[OF assms(2) this emb, of 0] obtain buf w2 bs where
    run: "fold (process_text env b) (enumerate 0 texts) ([], w1) = (buf, w2)"
    and calls: "insertMany_calls w2 = insertMany_calls w1 @ bs"
    and sizes: "map length bs = replicate (length texts div 100) 100"
    and rest: "length buf = length texts mod 100"
    and cont: "map content (concat bs @ buf) = texts"
    by auto
  have "(250::nat) div 100 = 2" by simp
  with sizes assms(3) have "map length bs = replicate 2 100" by simp
  then have "map length bs = [100, 100]" by (simp add: numeral_2_eq_2)
  then obtain b1 b2 where bs: "bs = [b1, b2]" and l: "length b1 = 100" "length b2 = 100"
    by (auto simp: map_eq_Cons_conv)
  from rest assms(3) have lb: "length buf = 50" by simp
  have acc: "\<forall>d. write_error env (length (insertMany_calls w2)) d = None" using assms(2) by simp
  from lb have "buf \<noteq> []" by auto
  then have "buildFromTexts env b texts w =
          (None, w2\<lparr> docs := docs w2 @ buf, insertMany_calls := insertMany_calls w2 @ [buf] \<rparr>)"
    using g valid run lb insertMany_accepted[OF acc, of buf] by (simp add: buildFromTexts_def)
  with calls w1 bs l lb cont show ?thesis by simp
qed

text \<open>
  C4, instance: 250 times the unit \<open>"a"\<close>.
\<close>

theorem C4_batches_witness:
  "\<exists>w' b1 b2 b3.
     buildFromTexts (scripted_env (\<lambda>k. False) []) default_builder (replicate 250 (js ''a''))
       (world_with []) = (None, w')
     \<and> insertMany_calls w' = [b1, b2, b3]
     \<and> length b1 = 100 \<and> length b2 = 100 \<and> length b3 = 50"
proof -
  let ?env = "scripted_env (\<lambda>k. False) []"
  have h: "connected (world_with []) \<or> client_connect ?env = None"
    "\<forall>k d. write_error ?env k d = None"
    "length (replicate 250 (js ''a'')) = 250"
    "\<forall>t\<in>set (replicate 250 (js ''a'')). length (trim t) > 0"
    "\<forall>i<250. \<exists>v. embeddings_create ?env (embedding_requests (world_with []) + i)
        (replicate 250 (js ''a'') ! i) (embeddingsModel default_builder)
        (embeddingsDimension default_builder) = Inr v"
    by (simp_all add: scripted_env_def world_with_def trim_def is_ws_def js_def)
  from C4_batches[OF h] show ?thesis
    by (simp add: world_with_def) blast
qed

text \<open>
  C6: on a store that is reachable and does not fail, \<open>cleanupByUid u\<close> returns the number
  of records whose \<open>uid\<close> is \<open>u\<close> and leaves exactly the other records (those with another
  \<open>uid\<close> or none), unchanged and in their order; called again at once it returns 0 and
  removes nothing.
\<close>

theorem C6_cleanupByUid:
  assumes "connected w \<or> client_connect env = None" and "deleteMany_error env = None"
  shows "\<exists>w1 w2.
           cleanupByUid env b u w = (Inr (length (filter (\<lambda>d. uid d = Some u) (docs w))), w1)
           \<and> docs w1 = filter (\<lambda>d. uid d \<noteq> Some u) (docs w)
           \<and> cleanupByUid env b u w1 = (Inr 0, w2)
           \<and> docs w2 = docs w1"
proof -
  from getCollection_ok[OF assms(1), of b] obtain w0 where
    g: "getCollection env b w = (None, w0)" and w0: "docs w0 = docs w" "connected w0"
    by blast
  define w1 where "w1 = w0\<lparr> docs := filter (\<lambda>d. uid d \<noteq> Some u) (docs w0) \<rparr>"
  have first: "cleanupByUid env b u w = (Inr (length (filter (\<lambda>d. uid d = Some u) (docs w))), w1)"
    using g assms(2) w0 by (simp add: cleanupByUid_def deleteMany_def w1_def)
  have c1: "connected w1 \<or> client_connect env = None" using w0 by (simp add: w1_def)
  from getCollection_ok[OF c1, of b] obtain w1' where
    g': "getCollection env b w1 = (None, w1')" and w1': "docs w1' = docs w1"
    by blast
  have none: "filter (\<lambda>d. uid d = Some u) (docs w1) = []"
    by (simp add: w1_def filter_empty_conv)
  have keep: "filter (\<lambda>d. uid d \<noteq> Some u) (docs w1) = docs w1"
    by (simp add: w1_def)
  have second: "cleanupByUid env b u w1 = (Inr 0, w1'\<lparr> docs := docs w1 \<rparr>)"
    using g' assms(2) w1' none keep by (simp add: cleanupByUid_def deleteMany_def)
  from first second w0 show ?thesis by (simp add: w1_def)
qed

text \<open>
  C6, instance: \<open>cleanupByUid("owner-1")\<close> on four records, two of them of \<open>owner-1\<close>, one
  of \<open>owner-2\<close> and one without owner.
\<close>

theorem C6_cleanupByUid_witness:
  "\<exists>w1 w2.
     cleanupByUid (scripted_env (\<lambda>k. False) []) default_builder (js ''owner-1'')
       (world_with [stored (js ''a'') (Some (js ''owner-1'')), stored (js ''b'') (Some (js ''owner-2'')),
                    stored (js ''c'') None, stored (js ''d'') (Some (js ''owner-1''))])
       = (Inr 2, w1)
     \<and> docs w1 = [stored (js ''b'') (Some (js ''owner-2'')), stored (js ''c'') None]
     \<and> cleanupByUid (scripted_env (\<lambda>k. False) []) default_builder (js ''owner-1'') w1 = (Inr 0, w2)
     \<and> docs w2 = docs w1"
proof -
  let ?env = "scripted_env (\<lambda>k. False) []"
  let ?w = "world_with [stored (js ''a'') (Some (js ''owner-1'')), stored (js ''b'') (Some (js ''owner-2'')),
                    stored (js ''c'') None, stored (js ''d'') (Some (js ''owner-1''))]"
  have h: "connected ?w \<or> client_connect ?env = None" "deleteMany_error ?env = None"
    by (simp_all add: scripted_env_def)
  have n: "length (filter (\<lambda>d. uid d = Some (js ''owner-1'')) (docs ?w)) = 2"
    and k: "filter (\<lambda>d. uid d \<noteq> Some (js ''owner-1'')) (docs ?w)
            = [stored (js ''b'') (Some (js ''owner-2'')), stored (js ''c'') None]"
    by (simp_all add: world_with_def stored_def js_def)
  from C6_cleanupByUid[OF h, of default_builder "js ''owner-1''"] show ?thesis
    unfolding n k by blast
qed

text \<open>
  C7: \<open>buildFromFile\<close> raises \<open>Input file not found\<close> and leaves the state as it was when
  the path cannot be accessed; when the file is read, the outcome is that of \<open>buildFromTexts\<close>
  on the paragraphs \<open>tokenizeParagraphs\<close> makes of its content, the chunker taking no part.
\<close>

theorem C7_buildFromFile:
  "(\<not> fs_access env filePath \<longrightarrow>
      buildFromFile env b filePath w =
        (Some (Error (js ''Input file not found: '' @ filePath)), w))
   \<and> (fs_access env filePath \<and> fs_readFile env filePath = Inr rawData \<longrightarrow>
      buildFromFile env b filePath w = buildFromTexts env b (tokenizeParagraphs rawData) w)"
  by (simp add: buildFromFile_def)

text \<open>
  C7, instance: a missing file, and a file of two paragraphs, the first of two sentences: the
  records stored are the two paragraphs.
\<close>

theorem C7_buildFromFile_witness:
  "buildFromFile (scripted_env (\<lambda>k. False) [(js ''notes.txt'', js ''One. Two.\<newline>\<newline>Three.'')])
      default_builder (js ''missing.txt'') (world_with [])
     = (Some (Error (js ''Input file not found: missing.txt'')), world_with [])
   \<and> map content (docs (snd (buildFromFile
        (scripted_env (\<lambda>k. False) [(js ''notes.txt'', js ''One. Two.\<newline>\<newline>Three.'')])
        default_builder (js ''notes.txt'') (world_with []))))
     = [js ''One. Two.'', js ''Three.'']"
proof -
  let ?env = "scripted_env (\<lambda>k. False) [(js ''notes.txt'', js ''One. Two.\<newline>\<newline>Three.'')]"
  have a: "\<not> fs_access ?env (js ''missing.txt'')"
    by (simp add: scripted_env_def js_def)
  have b: "fs_access ?env (js ''notes.txt'') \<and> fs_readFile ?env (js ''notes.txt'') = Inr (js ''One. Two.\<newline>\<newline>Three.'')"
    by (simp add: scripted_env_def js_def)
  have p: "tokenizeParagraphs (js ''One. Two.\<newline>\<newline>Three.'') = [js ''One. Two.'', js ''Three.'']"
    by (simp add: tokenizeParagraphs_def js_split_def re_blank_line_def trim_def is_ws_def js_def Let_def)
  have t: "length (trim (js ''One. Two.'')) > 0" "length (trim (js ''Three.'')) > 0"
    by (simp_all add: trim_def is_ws_def js_def)
  have r: "map content (docs (snd (buildFromTexts ?env default_builder [js ''One. Two.'', js ''Three.''] (world_with []))))
     = [js ''One. Two.'', js ''Three.'']"
    using t by (simp add: pipeline_eval numeral_2_eq_2)
  from C7_buildFromFile[where env = ?env and filePath = "js ''missing.txt''" and b = default_builder
      and w = "world_with []"] a
  have m: "buildFromFile ?env default_builder (js ''missing.txt'') (world_with [])
     = (Some (Error (js ''Input file not found: missing.txt'')), world_with [])"
    by (simp add: js_def)
  from C7_buildFromFile[where env = ?env and filePath = "js ''notes.txt''" and b = default_builder
      and w = "world_with []" and rawData = "js ''One. Two.\<newline>\<newline>Three.''"] b
  have "buildFromFile ?env default_builder (js ''notes.txt'') (world_with [])
      = buildFromTexts ?env default_builder (tokenizeParagraphs (js ''One. Two.\<newline>\<newline>Three.'')) (world_with [])"
    by blast
  with p r m show ?thesis by simp
qed

end
